theory Spec2Isabelle
  imports Complex_Main "HOL-Library.Log_Nat"
begin

section \<open>The notebook's own functions\<close>

text \<open>
  The notebook \<^verbatim>\<open>Demo_Optimization.ipynb\<close> defines a handful of small Python functions
  (objectives, constraint functions and hand-written Jacobians) and hands them to
  \<^verbatim>\<open>scipy.optimize.minimize\<close> and \<^verbatim>\<open>scipy.optimize.linprog\<close>. Only the functions the
  notebook itself defines are embedded here; the solvers are library code outside the
  repository.

  \<^verbatim>\<open>profit\<close> is modelled as Python evaluates it on a float: in binary64, with rounding
  after every operation and with the \<^verbatim>\<open>OverflowError\<close> of the power operator. The
  constraint functions and the two cost functions are read as functions of real numbers,
  since what is proved about them is an exact derivative or an analytic optimum; there a
  decision vector is a \<^typ>\<open>real list\<close>, read by index as the source does.
\<close>

subsection \<open>Exceptions\<close>

datatype py_error = IndexError | OverflowError

subsection \<open>Binary64 numbers and rounding\<close>

text \<open>
  A Python float is a binary64 number: a finite value, an infinity or a NaN. A finite
  value is carried as the real number it denotes; the sign of a zero is not represented,
  since no comparison observes it. The largest finite value is \<open>(2\<^sup>5\<^sup>3 - 1) * 2\<^sup>9\<^sup>7\<^sup>1\<close>.
\<close>

datatype pyfloat = Fin real | PInf | NInf | NaN

definition maxfloat :: real where
  "maxfloat = (2 ^ 53 - 1) * 2 ^ 971"

text \<open>
  \<open>expo r\<close> is the binary exponent of a non-zero real: \<open>2 powi expo r \<le> \<bar>r\<bar> < 2 powi (expo r + 1)\<close>.
  The spacing of binary64 numbers around \<open>r\<close> is \<open>2 powi ulp_exp r\<close>: 53 significant bits,
  and never finer than \<open>2 powi (- 1074)\<close>, the spacing of the subnormal numbers.
\<close>

definition expo :: "real \<Rightarrow> int" where
  "expo r = (if 1 \<le> \<bar>r\<bar> then bitlen \<lfloor>\<bar>r\<bar>\<rfloor> - 1 else - bitlen (\<lceil>1 / \<bar>r\<bar>\<rceil> - 1))"

definition ulp_exp :: "real \<Rightarrow> int" where
  "ulp_exp r = max (expo r - 52) (- 1074)"

text \<open>
  Rounding to nearest, ties to even: \<open>round_half_even\<close> on the integers, \<open>rne\<close> on the
  binary64 grid with the exponent unbounded above. A real is a finite binary64 number
  when rounding leaves it unchanged and it does not exceed the largest finite value. An
  arithmetic result whose rounded value exceeds that value becomes an infinity.
\<close>

definition round_half_even :: "real \<Rightarrow> int" where
  "round_half_even y =
     (let f = \<lfloor>y\<rfloor>; d = y - of_int f
      in if d < 1 / 2 then f else if 1 / 2 < d then f + 1 else if even f then f else f + 1)"

definition rne :: "real \<Rightarrow> real" where
  "rne r = of_int (round_half_even (r / 2 powi ulp_exp r)) * 2 powi ulp_exp r"

definition is_b64 :: "real \<Rightarrow> bool" where
  "is_b64 v \<longleftrightarrow> rne v = v \<and> \<bar>v\<bar> \<le> maxfloat"

definition of_rounded :: "real \<Rightarrow> pyfloat" where
  "of_rounded r =
     (let v = rne r in if maxfloat < v then PInf else if v < - maxfloat then NInf else Fin v)"

subsection \<open>Python's float operators\<close>

text \<open>
  Subtraction and division of floats are the IEEE operations: the exact result, rounded;
  neither raises for the operands that occur here. The divisor in the source is the
  literal \<^verbatim>\<open>15\<close>, so \<open>float_div_by\<close> takes a positive finite divisor and there is no
  \<^verbatim>\<open>ZeroDivisionError\<close> branch.
\<close>

fun float_sub :: "pyfloat \<Rightarrow> pyfloat \<Rightarrow> pyfloat" where
  "float_sub NaN _ = NaN"
| "float_sub _ NaN = NaN"
| "float_sub PInf PInf = NaN"
| "float_sub PInf _ = PInf"
| "float_sub NInf NInf = NaN"
| "float_sub NInf _ = NInf"
| "float_sub (Fin a) PInf = NInf"
| "float_sub (Fin a) NInf = PInf"
| "float_sub (Fin a) (Fin b) = of_rounded (a - b)"

fun float_div_by :: "pyfloat \<Rightarrow> real \<Rightarrow> pyfloat" where
  "float_div_by NaN d = NaN"
| "float_div_by PInf d = PInf"
| "float_div_by NInf d = NInf"
| "float_div_by (Fin a) d = of_rounded (a / d)"

text \<open>
  \<^verbatim>\<open>x**2\<close> on a float keeps a NaN, maps both infinities to \<^verbatim>\<open>inf\<close>, and for a finite \<open>x\<close>
  calls the C library's \<^verbatim>\<open>pow\<close>, raising \<^verbatim>\<open>OverflowError\<close> when that reports a range
  error. The last bit of \<^verbatim>\<open>pow\<close> differs between C libraries, so the operation on finite
  values is a parameter \<open>pw\<close>. \<open>pow_ok pw\<close> asks of it no more than accuracy to one unit in
  the last place: an error is raised only when the exact square exceeds the largest
  finite value; a returned value is non-negative and finite, differs from the exact
  square \<open>x\<^sup>2\<close> by at most \<open>x\<^sup>2 / 2\<^sup>5\<^sup>2 + 2\<^sup>-\<^sup>1\<^sup>0\<^sup>7\<^sup>4\<close> (the spacing of binary64 numbers at \<open>x\<^sup>2\<close>
  is no larger), and equals the exact square when that is a binary64 number.
\<close>

definition float_pow2 :: "(real \<Rightarrow> py_error + real) \<Rightarrow> pyfloat \<Rightarrow> py_error + pyfloat" where
  "float_pow2 pw x =
     (case x of
        NaN \<Rightarrow> Inr NaN
      | PInf \<Rightarrow> Inr PInf
      | NInf \<Rightarrow> Inr PInf
      | Fin v \<Rightarrow> (case pw v of Inl e \<Rightarrow> Inl e | Inr s \<Rightarrow> Inr (Fin s)))"

definition pow_ok :: "(real \<Rightarrow> py_error + real) \<Rightarrow> bool" where
  "pow_ok pw \<longleftrightarrow>
     (\<forall>x. is_b64 x \<longrightarrow>
        (case pw x of
           Inl e \<Rightarrow> e = OverflowError \<and> maxfloat < x ^ 2
         | Inr s \<Rightarrow> 0 \<le> s \<and> s \<le> maxfloat \<and>
             \<bar>s - x ^ 2\<bar> \<le> x ^ 2 / 2 ^ 52 + 1 / 2 ^ 1074 \<and>
             (is_b64 (x ^ 2) \<longrightarrow> s = x ^ 2)))"

text \<open>
  Two instances. \<open>pow_cr\<close> rounds the exact square to nearest. \<open>pow_alt\<close> differs from it
  at the single argument \<open>7.5 + 612 * 2\<^sup>-\<^sup>5\<^sup>0\<close> (printed \<^verbatim>\<open>7.500000000000544\<close>), where the
  exact square lies just above the midpoint of two binary64 numbers and \<open>pow_alt\<close>
  returns the lower one.
\<close>

definition pow_cr :: "real \<Rightarrow> py_error + real" where
  "pow_cr x = (let v = rne (x ^ 2) in if maxfloat < v then Inl OverflowError else Inr v)"

definition pow_alt :: "real \<Rightarrow> py_error + real" where
  "pow_alt x =
     (if x = 15 / 2 + 612 / 2 ^ 50 then Inr (225 / 4 + 1147 / 2 ^ 47) else pow_cr x)"

subsection \<open>Simple minimization: \<^verbatim>\<open>profit\<close>\<close>

text \<open>
  \<^verbatim>\<open>
  def profit(x):
      return x - x**2 / 15
  \<close>
  The power is evaluated first, then the division, then the subtraction.
\<close>

definition profit :: "(real \<Rightarrow> py_error + real) \<Rightarrow> pyfloat \<Rightarrow> py_error + pyfloat" where
  "profit pw x =
     (case float_pow2 pw x of
        Inl e \<Rightarrow> Inl e
      | Inr s \<Rightarrow> Inr (float_sub x (float_div_by s 15)))"

subsection \<open>Reading a decision vector\<close>

text \<open>
  \<^verbatim>\<open>xy[0]\<close>, \<^verbatim>\<open>xy[1]\<close> on a sequence that is too short raise \<^verbatim>\<open>IndexError\<close>; the source
  only uses the literal indices 0 and 1, so negative indices are not modelled.
  \<^verbatim>\<open>sum(s)\<close> is Python's built-in left-to-right sum starting from 0.
\<close>

definition getitem :: "real list \<Rightarrow> nat \<Rightarrow> py_error + real" where
  "getitem xs i = (if i < length xs then Inr (xs ! i) else Inl IndexError)"

definition py_sum :: "real list \<Rightarrow> real" where
  "py_sum s = foldl (+) 0 s"

subsection \<open>Constraint dictionaries\<close>

text \<open>
  Each constraint handed to \<^verbatim>\<open>minimize\<close> is a dictionary with the three keys
  \<^verbatim>\<open>'type'\<close>, \<^verbatim>\<open>'fun'\<close> and \<^verbatim>\<open>'jac'\<close>. The notebook binds all three of its
  dictionaries to the same name \<^verbatim>\<open>ineq_cons\<close>, one after the other; here each gets the
  name of its example, and the two lambdas stored under \<^verbatim>\<open>'fun'\<close> and \<^verbatim>\<open>'jac'\<close> are
  defined as \<open>_fun\<close> and \<open>_jac\<close> of that example.
\<close>

record constraint_dict =
  c_type :: string
  c_fun :: "real list \<Rightarrow> py_error + real list"
  c_jac :: "real list \<Rightarrow> py_error + real list list"

subsection \<open>Fencing example\<close>

text \<open>
  Both this example and the Lagrange example name their objective \<^verbatim>\<open>cost\<close>; here they
  are \<open>fencing_cost\<close> and \<open>lagrange_cost\<close>.
  \<^verbatim>\<open>
  def cost(xy):
      return 7*2*xy[0] + 4*2*xy[1]

  def area(xy):
      return xy[0]*xy[1]

  ineq_cons = {'type': 'ineq',
               'fun': lambda xy: [area(xy) - 100],
               'jac': lambda xy: [[xy[1], xy[0]]]}
  \<close>
\<close>

definition area :: "real list \<Rightarrow> py_error + real" where
  "area xy =
     (case getitem xy 0 of
        Inl e \<Rightarrow> Inl e
      | Inr a \<Rightarrow> (case getitem xy 1 of Inl e \<Rightarrow> Inl e | Inr b \<Rightarrow> Inr (a * b)))"

definition fencing_cost :: "real list \<Rightarrow> py_error + real" where
  "fencing_cost xy =
     (case getitem xy 0 of
        Inl e \<Rightarrow> Inl e
      | Inr a \<Rightarrow> (case getitem xy 1 of Inl e \<Rightarrow> Inl e | Inr b \<Rightarrow> Inr (7 * 2 * a + 4 * 2 * b)))"

definition fencing_fun :: "real list \<Rightarrow> py_error + real list" where
  "fencing_fun xy = (case area xy of Inl e \<Rightarrow> Inl e | Inr a \<Rightarrow> Inr [a - 100])"

definition fencing_jac :: "real list \<Rightarrow> py_error + real list list" where
  "fencing_jac xy =
     (case getitem xy 1 of
        Inl e \<Rightarrow> Inl e
      | Inr b \<Rightarrow> (case getitem xy 0 of Inl e \<Rightarrow> Inl e | Inr a \<Rightarrow> Inr [[b, a]]))"

definition fencing_ineq_cons :: constraint_dict where
  "fencing_ineq_cons = \<lparr>c_type = ''ineq'', c_fun = fencing_fun, c_jac = fencing_jac\<rparr>"

subsection \<open>Portfolio example\<close>

text \<open>
  \<^verbatim>\<open>
  ineq_cons = {'type': 'ineq',
               'fun': lambda s: [10 - sum(s)],
               'jac': lambda s: [[-1.0, -1.0, -1.0]]}
  \<close>
\<close>

definition portfolio_fun :: "real list \<Rightarrow> py_error + real list" where
  "portfolio_fun s = Inr [10 - py_sum s]"

definition portfolio_jac :: "real list \<Rightarrow> py_error + real list list" where
  "portfolio_jac s = Inr [[- 1, - 1, - 1]]"

definition portfolio_ineq_cons :: constraint_dict where
  "portfolio_ineq_cons = \<lparr>c_type = ''ineq'', c_fun = portfolio_fun, c_jac = portfolio_jac\<rparr>"

subsection \<open>Lagrange example\<close>

text \<open>
  \<^verbatim>\<open>
  def cost(xy):
      return xy[0]**2 + 4*xy[1]

  def constraint(xy):
      return xy[0] + xy[1]

  ineq_cons = {'type': 'eq',
               'fun': lambda xy: [constraint(xy) - 6],
               'jac': lambda xy: [[1, 1]]}
  \<close>
\<close>

definition constraint :: "real list \<Rightarrow> py_error + real" where
  "constraint xy =
     (case getitem xy 0 of
        Inl e \<Rightarrow> Inl e
      | Inr a \<Rightarrow> (case getitem xy 1 of Inl e \<Rightarrow> Inl e | Inr b \<Rightarrow> Inr (a + b)))"

definition lagrange_cost :: "real list \<Rightarrow> py_error + real" where
  "lagrange_cost xy =
     (case getitem xy 0 of
        Inl e \<Rightarrow> Inl e
      | Inr a \<Rightarrow> (case getitem xy 1 of Inl e \<Rightarrow> Inl e | Inr b \<Rightarrow> Inr (a ^ 2 + 4 * b)))"

definition lagrange_fun :: "real list \<Rightarrow> py_error + real list" where
  "lagrange_fun xy = (case constraint xy of Inl e \<Rightarrow> Inl e | Inr a \<Rightarrow> Inr [a - 6])"

definition lagrange_jac :: "real list \<Rightarrow> py_error + real list list" where
  "lagrange_jac xy = Inr [[1, 1]]"

definition lagrange_eq_cons :: constraint_dict where
  "lagrange_eq_cons = \<lparr>c_type = ''eq'', c_fun = lagrange_fun, c_jac = lagrange_jac\<rparr>"

subsection \<open>What it means for \<^verbatim>\<open>'jac'\<close> to be the derivative of \<^verbatim>\<open>'fun'\<close>\<close>

text \<open>
  The Jacobian is the matrix of first partial derivatives. \<open>partial_derivative f p i j d\<close>
  says: moving only coordinate \<open>j\<close> of the point \<open>p\<close>, the function \<open>f\<close> never raises, its
  \<open>i\<close>-th output is a real function of that coordinate, and that function has derivative
  \<open>d\<close> at \<open>p ! j\<close>. \<open>jac_is_derivative_at c p\<close> says that at \<open>p\<close> both entries of the
  dictionary return, the Jacobian has one row per output and one column per variable,
  and every entry is the corresponding partial derivative.
\<close>

definition partial_derivative ::
    "(real list \<Rightarrow> py_error + real list) \<Rightarrow> real list \<Rightarrow> nat \<Rightarrow> nat \<Rightarrow> real \<Rightarrow> bool" where
  "partial_derivative f p i j d \<longleftrightarrow>
     (\<exists>g. (\<forall>t. \<exists>ys. f (p[j := t]) = Inr ys \<and> i < length ys \<and> ys ! i = g t) \<and>
          (g has_real_derivative d) (at (p ! j)))"

definition jac_is_derivative_at :: "constraint_dict \<Rightarrow> real list \<Rightarrow> bool" where
  "jac_is_derivative_at c p \<longleftrightarrow>
     (\<exists>ys rows. c_fun c p = Inr ys \<and> c_jac c p = Inr rows \<and> length rows = length ys \<and>
        (\<forall>i<length ys. length (rows ! i) = length p \<and>
           (\<forall>j<length p. partial_derivative (c_fun c) p i j (rows ! i ! j))))"

section \<open>Binary64 rounding\<close>

subsection \<open>The binary exponent\<close>

lemma expo_lower:
  assumes "r \<noteq> 0"
  shows "2 powi expo r \<le> \<bar>r\<bar>"
proof (cases "1 \<le> \<bar>r\<bar>")
  case True
  define n where "n = \<lfloor>\<bar>r\<bar>\<rfloor>"
  have n: "0 < n" using True by (simp add: n_def)
  have e: "expo r = bitlen n - 1" using True by (simp add: expo_def n_def)
  have k: "0 \<le> bitlen n - 1"
    using n by (simp add: bitlen_alt_def)
  from bitlen_bounds [OF n] have "2 ^ nat (bitlen n - 1) \<le> n" by simp
  then have "(2::real) ^ nat (bitlen n - 1) \<le> of_int n"
    by (metis of_int_le_iff of_int_numeral of_int_power)
  also have "\<dots> \<le> \<bar>r\<bar>" by (simp add: n_def)
  finally show ?thesis using k by (simp add: e power_int_def)
next
  case False
  define a where "a = 1 / \<bar>r\<bar>"
  define n where "n = \<lceil>a\<rceil>"
  have r: "0 < \<bar>r\<bar>" "\<bar>r\<bar> < 1" using assms False by simp_all
  have a: "1 < a" using r by (simp add: a_def)
  have n: "0 < n - 1" using a by (simp add: n_def)
  have e: "expo r = - bitlen (n - 1)" using False by (simp add: expo_def n_def a_def)
  have k: "0 \<le> bitlen (n - 1)" by (rule bitlen_nonneg)
  from bitlen_bounds [OF n] have "n - 1 < 2 ^ nat (bitlen (n - 1))" by simp
  then have "n \<le> 2 ^ nat (bitlen (n - 1))" by simp
  then have "of_int n \<le> (2::real) ^ nat (bitlen (n - 1))"
    by (metis of_int_le_iff of_int_numeral of_int_power)
  moreover have "a \<le> of_int n" by (simp add: n_def)
  ultimately have "a \<le> 2 ^ nat (bitlen (n - 1))" by linarith
  then have "1 / 2 ^ nat (bitlen (n - 1)) \<le> 1 / a"
    using a by (intro divide_left_mono) (simp_all)
  also have "1 / a = \<bar>r\<bar>" by (simp add: a_def)
  finally have "1 / 2 ^ nat (bitlen (n - 1)) \<le> \<bar>r\<bar>" .
  moreover have "2 powi (- bitlen (n - 1)) = (1::real) / 2 ^ nat (bitlen (n - 1))"
    using k by (simp add: power_int_def power_divide)
  ultimately show ?thesis by (simp add: e)
qed

lemma expo_upper:
  assumes "r \<noteq> 0"
  shows "\<bar>r\<bar> < 2 powi (expo r + 1)"
proof (cases "1 \<le> \<bar>r\<bar>")
  case True
  define n where "n = \<lfloor>\<bar>r\<bar>\<rfloor>"
  have n: "0 < n" using True by (simp add: n_def)
  have e: "expo r = bitlen n - 1" using True by (simp add: expo_def n_def)
  have k: "0 \<le> bitlen n" by (rule bitlen_nonneg)
  from bitlen_bounds [OF n] have "n + 1 \<le> 2 ^ nat (bitlen n)" by simp
  then have "of_int (n + 1) \<le> (2::real) ^ nat (bitlen n)"
    by (metis of_int_le_iff of_int_numeral of_int_power)
  moreover have "\<bar>r\<bar> < of_int (n + 1)" by (simp add: n_def)
  ultimately have "\<bar>r\<bar> < 2 ^ nat (bitlen n)" by linarith
  then show ?thesis using k by (simp add: e power_int_def)
next
  case False
  define a where "a = 1 / \<bar>r\<bar>"
  define n where "n = \<lceil>a\<rceil>"
  have r: "0 < \<bar>r\<bar>" "\<bar>r\<bar> < 1" using assms False by simp_all
  have a: "1 < a" using r by (simp add: a_def)
  have n: "0 < n - 1" using a by (simp add: n_def)
  have e: "expo r = - bitlen (n - 1)" using False by (simp add: expo_def n_def a_def)
  have k: "1 \<le> bitlen (n - 1)" using n by (simp add: bitlen_alt_def)
  from bitlen_bounds [OF n] have "2 ^ nat (bitlen (n - 1) - 1) \<le> n - 1" by simp
  then have "(2::real) ^ nat (bitlen (n - 1) - 1) \<le> of_int (n - 1)"
    by (metis of_int_le_iff of_int_numeral of_int_power)
  moreover have "of_int (n - 1) < a" by (simp add: n_def) linarith
  ultimately have lt: "2 ^ nat (bitlen (n - 1) - 1) < a" by linarith
  have "1 / a < 1 / 2 ^ nat (bitlen (n - 1) - 1)"
    using lt a by (intro divide_strict_left_mono) (simp_all)
  moreover have "1 / a = \<bar>r\<bar>" by (simp add: a_def)
  ultimately have "\<bar>r\<bar> < 1 / 2 ^ nat (bitlen (n - 1) - 1)" by simp
  moreover have "2 powi (- bitlen (n - 1) + 1) = (1::real) / 2 ^ nat (bitlen (n - 1) - 1)"
  proof -
    have "- bitlen (n - 1) + 1 = - (bitlen (n - 1) - 1)" by simp
    then show ?thesis using k by (simp only: power_int_minus_divide) (simp add: power_int_def)
  qed
  ultimately show ?thesis by (simp add: e)
qed

lemma expo_unique:
  assumes "2 powi e \<le> \<bar>r\<bar>" and "\<bar>r\<bar> < 2 powi (e + 1)"
  shows "expo r = e"
proof -
  have "0 < (2::real) powi e" by (rule zero_less_power_int) simp
  with assms(1) have "0 < \<bar>r\<bar>" by linarith
  then have r: "r \<noteq> 0" by simp
  have "expo r < e + 1"
  proof (rule ccontr)
    assume "\<not> expo r < e + 1"
    then have "(2::real) powi (e + 1) \<le> 2 powi expo r"
      by (intro power_int_increasing) simp_all
    with expo_lower [OF r] assms(2) show False by linarith
  qed
  moreover have "e < expo r + 1"
  proof (rule ccontr)
    assume "\<not> e < expo r + 1"
    then have "(2::real) powi (expo r + 1) \<le> 2 powi e"
      by (intro power_int_increasing) simp_all
    with expo_upper [OF r] assms(1) show False by linarith
  qed
  ultimately show ?thesis by simp
qed

subsection \<open>Rounding error\<close>

lemma round_half_even_error: "\<bar>of_int (round_half_even y) - y\<bar> \<le> 1 / 2"
  unfolding round_half_even_def Let_def by (auto simp: abs_le_iff)

lemma round_half_even_mono_int: "y \<le> of_int m \<Longrightarrow> round_half_even y \<le> m"
  unfolding round_half_even_def Let_def
  by (auto simp: floor_le_iff)

lemma round_half_even_nonneg: "0 \<le> y \<Longrightarrow> 0 \<le> round_half_even y"
  unfolding round_half_even_def Let_def by auto


lemma rne_zero: "rne 0 = 0"
  by (simp add: rne_def round_half_even_def)

lemma ulp_pos: "0 < (2::real) powi ulp_exp r"
  by simp

lemma rne_error_ulp: "\<bar>rne r - r\<bar> \<le> 2 powi ulp_exp r / 2"
proof -
  define p :: real where "p = 2 powi ulp_exp r"
  have p: "0 < p" by (simp add: p_def)
  have "rne r - r = (of_int (round_half_even (r / p)) - r / p) * p"
    using p by (simp add: rne_def p_def algebra_simps)
  then have "\<bar>rne r - r\<bar> = \<bar>of_int (round_half_even (r / p)) - r / p\<bar> * p"
    using p by (simp add: abs_mult)
  also have "\<dots> \<le> (1 / 2) * p"
    using p round_half_even_error [of "r / p"] by (intro mult_right_mono) simp_all
  finally show ?thesis by (simp add: p_def)
qed

lemma ulp_bound:
  assumes "r \<noteq> 0"
  shows "2 powi ulp_exp r / 2 \<le> \<bar>r\<bar> / 2 ^ 53 + 1 / 2 ^ 1075"
proof -
  note False = assms
  show ?thesis
  proof (cases "- 1074 \<le> expo r - 52")
    case True
    then have "ulp_exp r = expo r - 52" by (simp add: ulp_exp_def)
    then have "(2::real) powi ulp_exp r = 2 powi expo r / 2 ^ 52"
      by (simp add: power_int_diff)
    also have "\<dots> \<le> \<bar>r\<bar> / 2 ^ 52"
      using expo_lower [OF False] by (simp add: divide_right_mono)
    finally have "2 powi ulp_exp r / 2 \<le> \<bar>r\<bar> / 2 ^ 53" by simp
    then show ?thesis by (simp add: add_increasing2)
  next
    case False
    then have "ulp_exp r = - 1074" by (simp add: ulp_exp_def)
    then have "(2::real) powi ulp_exp r / 2 = 1 / 2 ^ 1075"
      by (simp add: power_int_minus_divide)
    then show ?thesis by simp
  qed
qed

lemma rne_error: "\<bar>rne r - r\<bar> \<le> \<bar>r\<bar> / 2 ^ 53 + 1 / 2 ^ 1075"
proof (cases "r = 0")
  case True
  then show ?thesis by (simp add: rne_zero)
next
  case False
  show ?thesis using rne_error_ulp [of r] ulp_bound [OF False] by linarith
qed

lemma rne_nonneg: "0 \<le> r \<Longrightarrow> 0 \<le> rne r"
  unfolding rne_def using round_half_even_nonneg [of "r / 2 powi ulp_exp r"]
  by (simp add: zero_le_mult_iff)

lemma round_half_even_mono_int': "of_int m \<le> y \<Longrightarrow> m \<le> round_half_even y"
  unfolding round_half_even_def Let_def
  by (auto simp: le_floor_iff) linarith+

lemma round_half_even_of_int: "round_half_even (of_int k) = k"
  by (simp add: round_half_even_def)

lemma rne_power_of_two: "rne (2 ^ n) = 2 ^ n"
proof -
  have "expo (2 ^ n) = int n"
    by (rule expo_unique) (simp_all add: power_int_add)
  then have u: "ulp_exp (2 ^ n) = int n - 52"
    by (simp add: ulp_exp_def)
  have "(2::real) ^ n = 2 powi (52 + (int n - 52))" by simp
  also have "\<dots> = 2 powi 52 * 2 powi (int n - 52)"
    by (rule power_int_add) simp
  also have "\<dots> = of_int (2 ^ 52) * 2 powi (int n - 52)"
    by simp
  finally have split: "(2::real) ^ n = of_int (2 ^ 52) * 2 powi (int n - 52)" .
  then have "2 ^ n / 2 powi (int n - 52) = (of_int (2 ^ 52) :: real)"
    by simp
  then have "round_half_even (2 ^ n / 2 powi ulp_exp (2 ^ n)) = 2 ^ 52"
    by (simp only: u round_half_even_of_int)
  then show ?thesis
    unfolding rne_def by (simp only: u split [symmetric])
qed

subsection \<open>The largest finite value\<close>

lemma maxfloat_ge: "2 ^ 1023 \<le> maxfloat"
  by (simp add: maxfloat_def)

lemma maxfloat_lt: "maxfloat < 2 ^ 1024"
  by (simp add: maxfloat_def)

lemma maxfloat_pos: "0 < maxfloat"
  by (simp add: maxfloat_def)

lemma maxfloat_on_grid:
  assumes "r \<noteq> 0" and "\<bar>r\<bar> \<le> maxfloat"
  shows "\<exists>M::int. of_int M * 2 powi ulp_exp r = maxfloat"
proof -
  have "2 powi expo r \<le> \<bar>r\<bar>" by (rule expo_lower [OF assms(1)])
  also have "\<dots> < 2 ^ 1024" using assms(2) maxfloat_lt by linarith
  finally have "(2::real) powi expo r < 2 powi 1024" by simp
  then have "expo r < 1024"
    by (rule power_int_le_imp_less_exp [rotated]) simp_all
  then have e: "ulp_exp r \<le> 971" by (simp add: ulp_exp_def)
  define d where "d = nat (971 - ulp_exp r)"
  define M :: int where "M = (2 ^ 53 - 1) * 2 ^ d"
  have "(2::real) powi 971 = 2 powi (int d + ulp_exp r)"
    using e by (simp add: d_def)
  also have "\<dots> = 2 ^ d * 2 powi ulp_exp r"
    by (simp add: power_int_add)
  finally have "(2::real) ^ 971 = 2 ^ d * 2 powi ulp_exp r" by simp
  then have "of_int M * 2 powi ulp_exp r = maxfloat"
    by (simp add: M_def maxfloat_def mult.assoc)
  then show ?thesis ..
qed

lemma rne_le_maxfloat:
  assumes "r \<le> maxfloat"
  shows "rne r \<le> maxfloat"
proof (cases "0 < r")
  case False
  then have "r / 2 powi ulp_exp r \<le> of_int 0" by (simp add: divide_le_0_iff)
  then have "round_half_even (r / 2 powi ulp_exp r) \<le> 0"
    by (rule round_half_even_mono_int)
  then have "rne r \<le> 0"
    by (simp add: rne_def mult_le_0_iff)
  then show ?thesis using maxfloat_pos by linarith
next
  case True
  then obtain M :: int where M: "of_int M * 2 powi ulp_exp r = maxfloat"
    using maxfloat_on_grid [of r] assms by auto
  define p :: real where "p = 2 powi ulp_exp r"
  have p: "0 < p" by (simp add: p_def)
  have "r / p \<le> of_int M"
    using assms M p by (simp add: p_def pos_divide_le_eq)
  then have "round_half_even (r / p) \<le> M" by (rule round_half_even_mono_int)
  then have "of_int (round_half_even (r / p)) * p \<le> of_int M * p"
    using p by (simp add: mult_right_mono)
  then show ?thesis using M by (simp add: rne_def p_def)
qed

lemma rne_ge_neg_maxfloat:
  assumes "- maxfloat \<le> r"
  shows "- maxfloat \<le> rne r"
proof (cases "r < 0")
  case False
  then have "0 \<le> rne r" by (simp add: rne_nonneg)
  then show ?thesis using maxfloat_pos by linarith
next
  case True
  then obtain M :: int where M: "of_int M * 2 powi ulp_exp r = maxfloat"
    using maxfloat_on_grid [of r] assms by auto
  define p :: real where "p = 2 powi ulp_exp r"
  have p: "0 < p" by (simp add: p_def)
  have "of_int (- M) \<le> r / p"
    using assms M p by (simp add: p_def pos_le_divide_eq)
  then have "- M \<le> round_half_even (r / p)" by (rule round_half_even_mono_int')
  then have "of_int (- M) * p \<le> of_int (round_half_even (r / p)) * p"
    using p by (simp only: mult_le_cancel_right_pos of_int_le_iff)
  then show ?thesis using M by (simp add: rne_def p_def)
qed

lemma of_rounded_Fin:
  assumes "\<bar>r\<bar> \<le> maxfloat"
  shows "of_rounded r = Fin (rne r)"
proof -
  from assms have "r \<le> maxfloat" and "- maxfloat \<le> r" by linarith+
  then have "rne r \<le> maxfloat" and "- maxfloat \<le> rne r"
    by (simp_all add: rne_le_maxfloat rne_ge_neg_maxfloat)
  then show ?thesis by (simp add: of_rounded_def Let_def not_less)
qed

lemma is_b64I:
  assumes "rne v = v" and "\<bar>v\<bar> \<le> 2 ^ 1023"
  shows "is_b64 v"
  unfolding is_b64_def using assms maxfloat_ge by linarith

lemma of_rounded_small:
  assumes "\<bar>r\<bar> \<le> 2 ^ 1023"
  shows "of_rounded r = Fin (rne r)"
  using assms maxfloat_ge by (intro of_rounded_Fin) linarith

subsection \<open>The two instances of the power operator\<close>

lemma pow_cr_ok: "pow_ok pow_cr"
  unfolding pow_ok_def
proof (intro allI impI)
  fix x assume "is_b64 x"
  have nn: "0 \<le> x ^ 2" by simp
  show "case pow_cr x of
      Inl e \<Rightarrow> e = OverflowError \<and> maxfloat < x ^ 2
    | Inr s \<Rightarrow> 0 \<le> s \<and> s \<le> maxfloat \<and>
        \<bar>s - x ^ 2\<bar> \<le> x ^ 2 / 2 ^ 52 + 1 / 2 ^ 1074 \<and> (is_b64 (x ^ 2) \<longrightarrow> s = x ^ 2)"
  proof (cases "maxfloat < rne (x ^ 2)")
    case True
    then have "maxfloat < x ^ 2"
      using rne_le_maxfloat [of "x ^ 2"] by linarith
    with True show ?thesis by (simp add: pow_cr_def)
  next
    case False
    have "\<bar>rne (x ^ 2) - x ^ 2\<bar> \<le> x ^ 2 / 2 ^ 53 + 1 / 2 ^ 1075"
      using rne_error [of "x ^ 2"] by simp
    moreover have "x ^ 2 / 2 ^ 53 \<le> x ^ 2 / 2 ^ 52"
      by (intro divide_left_mono) simp_all
    moreover have "(1::real) / 2 ^ 1075 \<le> 1 / 2 ^ 1074"
      by (intro divide_left_mono power_increasing) simp_all
    ultimately have acc: "\<bar>rne (x ^ 2) - x ^ 2\<bar> \<le> x ^ 2 / 2 ^ 52 + 1 / 2 ^ 1074"
      by linarith
    from False acc rne_nonneg [OF nn] show ?thesis
      by (simp add: pow_cr_def is_b64_def)
  qed
qed

lemma pow_okD:
  assumes "pow_ok pw" and "is_b64 x"
  shows "case pw x of
      Inl e \<Rightarrow> e = OverflowError \<and> maxfloat < x ^ 2
    | Inr s \<Rightarrow> 0 \<le> s \<and> s \<le> maxfloat \<and>
        \<bar>s - x ^ 2\<bar> \<le> x ^ 2 / 2 ^ 52 + 1 / 2 ^ 1074 \<and> (is_b64 (x ^ 2) \<longrightarrow> s = x ^ 2)"
  using assms unfolding pow_ok_def by blast

lemma rne_x1: "rne (15 / 2 + 612 / 2 ^ 50) = 15 / 2 + 612 / 2 ^ 50"
  by code_simp

lemma rne_x1_sq: "rne ((15 / 2 + 612 / 2 ^ 50) ^ 2) = 225 / 4 + 1148 / 2 ^ 47"
  by code_simp

lemma rne_x1_q: "rne ((225 / 4 + 1147 / 2 ^ 47) / 15) = 15 / 4 + 1223 / 2 ^ 51"
  by code_simp

lemma rne_x1_r: "rne (15 / 4 + 1 / 2 ^ 51) = 15 / 4 + 1 / 2 ^ 51"
  by code_simp

lemma pow_alt_ok: "pow_ok pow_alt"
  unfolding pow_ok_def
proof (intro allI impI)
  fix x assume x: "is_b64 x"
  show "case pow_alt x of
      Inl e \<Rightarrow> e = OverflowError \<and> maxfloat < x ^ 2
    | Inr s \<Rightarrow> 0 \<le> s \<and> s \<le> maxfloat \<and>
        \<bar>s - x ^ 2\<bar> \<le> x ^ 2 / 2 ^ 52 + 1 / 2 ^ 1074 \<and> (is_b64 (x ^ 2) \<longrightarrow> s = x ^ 2)"
  proof (cases "x = 15 / 2 + 612 / 2 ^ 50")
    case False
    then show ?thesis using pow_okD [OF pow_cr_ok x] by (simp add: pow_alt_def)
  next
    case True
    have "rne ((15 / 2 + 612 / 2 ^ 50) ^ 2) \<noteq> (15 / 2 + 612 / 2 ^ 50) ^ 2"
      by (simp only: rne_x1_sq) (simp add: power2_eq_square)
    then have nb: "\<not> is_b64 ((15 / 2 + 612 / 2 ^ 50) ^ 2)"
      by (simp only: is_b64_def) simp
    have le: "(225 / 4 + 1147 / 2 ^ 47 :: real) \<le> maxfloat"
      using maxfloat_ge by simp
    have "\<bar>225 / 4 + 1147 / 2 ^ 47 - (15 / 2 + 612 / 2 ^ 50) ^ 2\<bar>
        \<le> (15 / 2 + 612 / 2 ^ 50) ^ 2 / 2 ^ 52 + (0 :: real)"
      by (simp add: power2_eq_square)
    also have "\<dots> \<le> (15 / 2 + 612 / 2 ^ 50) ^ 2 / 2 ^ 52 + 1 / 2 ^ 1074"
      by (intro add_left_mono) simp
    finally have acc: "\<bar>225 / 4 + 1147 / 2 ^ 47 - (15 / 2 + 612 / 2 ^ 50) ^ 2\<bar>
        \<le> (15 / 2 + 612 / 2 ^ 50) ^ 2 / 2 ^ 52 + (1 :: real) / 2 ^ 1074" .
    have "pow_alt x = Inr (225 / 4 + 1147 / 2 ^ 47)"
      using True by (simp only: pow_alt_def simp_thms if_True)
    with nb le acc show ?thesis
      by (simp only: True sum.case) simp
  qed
qed

section \<open>The maximum of \<^verbatim>\<open>profit\<close>\<close>

subsection \<open>Over the reals\<close>

text \<open>
  Read as a real function, the expression \<open>x - x\<^sup>2 / 15\<close> has the unique global maximum
  \<open>15 / 4\<close> at \<open>x = 15 / 2\<close>.
\<close>

lemma analytic_maximum:
  fixes x :: real
  shows "x - x ^ 2 / 15 \<le> 15 / 4 \<and> (x - x ^ 2 / 15 = 15 / 4 \<longleftrightarrow> x = 15 / 2)"
proof -
  have sq: "x - x ^ 2 / 15 = 15 / 4 - (x - 15 / 2) ^ 2 / 15"
    by (simp add: power2_eq_square field_simps)
  have "0 \<le> (x - 15 / 2) ^ 2" by simp
  with sq have le: "x - x ^ 2 / 15 \<le> 15 / 4" by simp
  have "x - x ^ 2 / 15 = 15 / 4 \<longleftrightarrow> (x - 15 / 2) ^ 2 = 0"
    using sq by simp
  also have "\<dots> \<longleftrightarrow> x = 15 / 2" by simp
  finally show ?thesis using le by blast
qed




subsection \<open>Running \<^verbatim>\<open>profit\<close> on a finite float\<close>

lemma profit_Fin_Inl: "pw x = Inl e \<Longrightarrow> profit pw (Fin x) = Inl e"
  by (simp add: profit_def float_pow2_def)

lemma profit_Fin_Inr:
  "pw x = Inr s \<Longrightarrow> profit pw (Fin x) = Inr (float_sub (Fin x) (float_div_by (Fin s) 15))"
  by (simp add: profit_def float_pow2_def)

lemma argument_small:
  fixes x s :: real
  assumes "\<bar>s - x ^ 2\<bar> \<le> x ^ 2 / 2 ^ 52 + 1 / 2 ^ 1074" and "s \<le> maxfloat"
  shows "\<bar>x\<bar> \<le> 2 ^ 513"
proof -
  have "x ^ 2 - x ^ 2 / 2 ^ 52 \<le> s + 1 / 2 ^ 1074"
    using assms(1) by (simp add: abs_le_iff)
  moreover have "x ^ 2 / 2 ^ 52 \<le> x ^ 2 / 2"
    by (intro divide_left_mono) simp_all
  moreover have "(1::real) / 2 ^ 1074 \<le> 1" by simp
  ultimately have "x ^ 2 / 2 \<le> maxfloat + 1"
    using assms(2) by linarith
  also have "\<dots> \<le> 2 ^ 1025" using maxfloat_lt by simp
  finally have "x ^ 2 \<le> (2 ^ 513) ^ 2" by simp
  then have "\<bar>x\<bar> \<le> \<bar>2 ^ 513 :: real\<bar>" by (simp only: abs_le_square_iff)
  then show ?thesis by simp
qed








lemma profit_overflow:
  assumes "pow_ok pw" and "is_b64 x" and "2 ^ 513 < \<bar>x\<bar>"
  shows "profit pw (Fin x) = Inl OverflowError"
proof (cases "pw x")
  case (Inl e)
  with pow_okD [OF assms(1,2)] show ?thesis by (simp add: profit_Fin_Inl)
next
  case (Inr s)
  with pow_okD [OF assms(1,2)] have "\<bar>x\<bar> \<le> 2 ^ 513"
    by (intro argument_small [of s x]) simp_all
  with assms(3) show ?thesis by simp
qed

lemma profit_overflow_example:
  assumes "pow_ok pw"
  shows "profit pw (Fin (2 ^ 600)) = Inl OverflowError"
proof (rule profit_overflow [OF assms])
  show "is_b64 (2 ^ 600)" by (rule is_b64I [OF rne_power_of_two]) simp
  show "2 ^ 513 < \<bar>2 ^ 600 :: real\<bar>" by simp
qed

subsection \<open>The maximiser is not unique in binary64\<close>





text \<open>
  Nor is \<open>3.75\<close> an upper bound for every admissible \<^verbatim>\<open>pow\<close>: with \<open>pow_alt\<close> the float
  \<open>7.5 + 612 * 2\<^sup>-\<^sup>5\<^sup>0\<close> gives \<open>3.75 + 2\<^sup>-\<^sup>5\<^sup>1\<close>, printed \<^verbatim>\<open>3.7500000000000004\<close>.
\<close>

lemma profit_exceeds_analytic_maximum:
  "pow_ok pow_alt \<and> is_b64 (15 / 2 + 612 / 2 ^ 50) \<and>
   profit pow_alt (Fin (15 / 2 + 612 / 2 ^ 50)) = Inr (Fin (15 / 4 + 1 / 2 ^ 51))"
proof (intro conjI)
  show "pow_ok pow_alt" by (rule pow_alt_ok)
  show "is_b64 (15 / 2 + 612 / 2 ^ 50)"
    by (rule is_b64I [OF rne_x1]) simp
  have p: "pow_alt (15 / 2 + 612 / 2 ^ 50) = Inr (225 / 4 + 1147 / 2 ^ 47)"
    by (simp only: pow_alt_def simp_thms if_True)
  have "of_rounded ((225 / 4 + 1147 / 2 ^ 47) / 15) = Fin (rne ((225 / 4 + 1147 / 2 ^ 47) / 15))"
    by (rule of_rounded_small) simp
  then have d: "float_div_by (Fin (225 / 4 + 1147 / 2 ^ 47)) 15 = Fin (15 / 4 + 1223 / 2 ^ 51)"
    by (simp only: float_div_by.simps rne_x1_q)
  have "(15 / 2 + 612 / 2 ^ 50 - (15 / 4 + 1223 / 2 ^ 51) :: real) = 15 / 4 + 1 / 2 ^ 51"
    by simp
  moreover have "of_rounded (15 / 4 + 1 / 2 ^ 51) = Fin (rne (15 / 4 + 1 / 2 ^ 51))"
    by (rule of_rounded_small) simp
  ultimately have s:
    "float_sub (Fin (15 / 2 + 612 / 2 ^ 50)) (Fin (15 / 4 + 1223 / 2 ^ 51))
      = Fin (15 / 4 + 1 / 2 ^ 51)"
    by (simp only: float_sub.simps rne_x1_r)
  show "profit pow_alt (Fin (15 / 2 + 612 / 2 ^ 50)) = Inr (Fin (15 / 4 + 1 / 2 ^ 51))"
    by (simp only: profit_Fin_Inr [of pow_alt "15 / 2 + 612 / 2 ^ 50", OF p] d s)
qed

subsection \<open>What holds in binary64\<close>



section \<open>The constraint Jacobians\<close>

subsection \<open>What the functions compute on well-formed vectors\<close>

lemma py_sum_eq_sum_list: "py_sum s = sum_list s"
proof -
  have "foldl (+) a s = a + sum_list s" for a :: real
    by (induction s arbitrary: a) simp_all
  then show ?thesis by (simp add: py_sum_def)
qed

lemma fencing_fun_pair: "fencing_fun [x, y] = Inr [x * y - 100]"
  by (simp add: fencing_fun_def area_def getitem_def)

lemma fencing_jac_pair: "fencing_jac [x, y] = Inr [[y, x]]"
  by (simp add: fencing_jac_def getitem_def)

lemma portfolio_fun_triple: "portfolio_fun [a, b, c] = Inr [10 - a - b - c]"
  by (simp add: portfolio_fun_def py_sum_def)

lemma lagrange_fun_pair: "lagrange_fun [x, y] = Inr [x + y - 6]"
  by (simp add: lagrange_fun_def constraint_def getitem_def)

subsection \<open>Partial derivatives, entry by entry\<close>

lemma partial_derivativeI:
  assumes "\<And>t. f (p[j := t]) = Inr [g t]"
    and "(g has_real_derivative d) (at (p ! j))"
  shows "partial_derivative f p 0 j d"
  unfolding partial_derivative_def using assms by (intro exI [of _ g]) simp

lemma fencing_partial_x: "partial_derivative fencing_fun [x, y] 0 0 y"
proof (rule partial_derivativeI [where g = "\<lambda>t. t * y - 100"])
  show "fencing_fun ([x, y][0 := t]) = Inr [t * y - 100]" for t
    by (simp add: fencing_fun_pair)
  show "((\<lambda>t. t * y - 100) has_real_derivative y) (at ([x, y] ! 0))"
    by (auto intro!: derivative_eq_intros)
qed

lemma fencing_partial_y: "partial_derivative fencing_fun [x, y] 0 (Suc 0) x"
proof (rule partial_derivativeI [where g = "\<lambda>t. x * t - 100"])
  show "fencing_fun ([x, y][Suc 0 := t]) = Inr [x * t - 100]" for t
    by (simp add: fencing_fun_pair)
  show "((\<lambda>t. x * t - 100) has_real_derivative x) (at ([x, y] ! Suc 0))"
    by (auto intro!: derivative_eq_intros)
qed

lemma fencing_jac_exact: "jac_is_derivative_at fencing_ineq_cons [x, y]"
  unfolding jac_is_derivative_at_def
  apply (rule exI [of _ "[x * y - 100]"], rule exI [of _ "[[y, x]]"])
  apply (simp add: fencing_ineq_cons_def fencing_fun_pair fencing_jac_pair less_Suc_eq
      fencing_partial_x fencing_partial_y)
  done

lemma portfolio_partial:
  assumes "j < 3"
  shows "partial_derivative portfolio_fun [a, b, c] 0 j (- 1)"
proof -
  consider "j = 0" | "j = Suc 0" | "j = Suc (Suc 0)"
    using assms by linarith
  then show ?thesis
  proof cases
    case 1
    have "partial_derivative portfolio_fun [a, b, c] 0 0 (- 1)"
    proof (rule partial_derivativeI [where g = "\<lambda>t. 10 - t - b - c"])
      show "portfolio_fun ([a, b, c][0 := t]) = Inr [10 - t - b - c]" for t
        by (simp add: portfolio_fun_triple)
      show "((\<lambda>t. 10 - t - b - c) has_real_derivative - 1) (at ([a, b, c] ! 0))"
        by (auto intro!: derivative_eq_intros)
    qed
    with 1 show ?thesis by simp
  next
    case 2
    have "partial_derivative portfolio_fun [a, b, c] 0 (Suc 0) (- 1)"
    proof (rule partial_derivativeI [where g = "\<lambda>t. 10 - a - t - c"])
      show "portfolio_fun ([a, b, c][Suc 0 := t]) = Inr [10 - a - t - c]" for t
        by (simp add: portfolio_fun_triple)
      show "((\<lambda>t. 10 - a - t - c) has_real_derivative - 1) (at ([a, b, c] ! Suc 0))"
        by (auto intro!: derivative_eq_intros)
    qed
    with 2 show ?thesis by simp
  next
    case 3
    have "partial_derivative portfolio_fun [a, b, c] 0 (Suc (Suc 0)) (- 1)"
    proof (rule partial_derivativeI [where g = "\<lambda>t. 10 - a - b - t"])
      show "portfolio_fun ([a, b, c][Suc (Suc 0) := t]) = Inr [10 - a - b - t]" for t
        by (simp add: portfolio_fun_triple)
      show "((\<lambda>t. 10 - a - b - t) has_real_derivative - 1) (at ([a, b, c] ! Suc (Suc 0)))"
        by (auto intro!: derivative_eq_intros)
    qed
    with 3 show ?thesis by simp
  qed
qed

lemma jac_single_outputI:
  assumes "c_fun c p = Inr [v]" and "c_jac c p = Inr [row]" and "length row = length p"
    and "\<And>j. j < length p \<Longrightarrow> partial_derivative (c_fun c) p 0 j (row ! j)"
  shows "jac_is_derivative_at c p"
  unfolding jac_is_derivative_at_def
  using assms by (intro exI [of _ "[v]"] exI [of _ "[row]"]) simp

lemma portfolio_jac_exact: "jac_is_derivative_at portfolio_ineq_cons [a, b, c]"
proof (rule jac_single_outputI)
  show "c_fun portfolio_ineq_cons [a, b, c] = Inr [10 - a - b - c]"
    by (simp add: portfolio_ineq_cons_def portfolio_fun_triple)
  show "c_jac portfolio_ineq_cons [a, b, c] = Inr [[- 1, - 1, - 1]]"
    by (simp add: portfolio_ineq_cons_def portfolio_jac_def)
  show "length [- 1, - 1, - 1 :: real] = length [a, b, c]"
    by simp
  show "partial_derivative (c_fun portfolio_ineq_cons) [a, b, c] 0 j ([- 1, - 1, - 1] ! j)"
    if "j < length [a, b, c]" for j
  proof -
    from that have j: "j < 3" by simp
    then have "[- 1, - 1, - 1 :: real] ! j = - 1"
      by (auto simp: less_Suc_eq numeral_3_eq_3)
    with portfolio_partial [OF j, of a b c] show ?thesis
      by (simp add: portfolio_ineq_cons_def)
  qed
qed

lemma lagrange_partial_x: "partial_derivative lagrange_fun [x, y] 0 0 1"
proof (rule partial_derivativeI [where g = "\<lambda>t. t + y - 6"])
  show "lagrange_fun ([x, y][0 := t]) = Inr [t + y - 6]" for t
    by (simp add: lagrange_fun_pair)
  show "((\<lambda>t. t + y - 6) has_real_derivative 1) (at ([x, y] ! 0))"
    by (auto intro!: derivative_eq_intros)
qed

lemma lagrange_partial_y: "partial_derivative lagrange_fun [x, y] 0 (Suc 0) 1"
proof (rule partial_derivativeI [where g = "\<lambda>t. x + t - 6"])
  show "lagrange_fun ([x, y][Suc 0 := t]) = Inr [x + t - 6]" for t
    by (simp add: lagrange_fun_pair)
  show "((\<lambda>t. x + t - 6) has_real_derivative 1) (at ([x, y] ! Suc 0))"
    by (auto intro!: derivative_eq_intros)
qed

lemma lagrange_jac_exact: "jac_is_derivative_at lagrange_eq_cons [x, y]"
  unfolding jac_is_derivative_at_def
  apply (rule exI [of _ "[x + y - 6]"], rule exI [of _ "[[1, 1]]"])
  apply (simp add: lagrange_eq_cons_def lagrange_fun_pair lagrange_jac_def less_Suc_eq
      lagrange_partial_x lagrange_partial_y)
  done

lemma jac_is_derivative_atD:
  assumes "jac_is_derivative_at c p" and "c_fun c p = Inr ys" and "c_jac c p = Inr rows"
    and "i < length ys" and "j < length p"
  shows "partial_derivative (c_fun c) p i j (rows ! i ! j)"
  using assms unfolding jac_is_derivative_at_def by auto

lemma partial_derivativeD:
  assumes "partial_derivative f p i j d" and "\<And>t. f (p[j := t]) = Inr (out t)"
  shows "((\<lambda>t. out t ! i) has_real_derivative d) (at (p ! j))"
proof -
  from assms(1) obtain g where g: "\<And>t. \<exists>ys. f (p[j := t]) = Inr ys \<and> i < length ys \<and> ys ! i = g t"
    and d: "(g has_real_derivative d) (at (p ! j))"
    unfolding partial_derivative_def by blast
  have "g t = out t ! i" for t
    using g [of t] assms(2) [of t] by auto
  then have "g = (\<lambda>t. out t ! i)" by (simp add: fun_eq_iff)
  with d show ?thesis by simp
qed

lemma jac_entry_derivative:
  assumes "jac_is_derivative_at c p" and "c_fun c p = Inr ys" and "c_jac c p = Inr rows"
    and "i < length ys" and "j < length p"
    and "\<And>t. c_fun c (p[j := t]) = Inr (out t)"
  shows "((\<lambda>t. out t ! i) has_real_derivative rows ! i ! j) (at (p ! j))"
  by (rule partial_derivativeD [OF jac_is_derivative_atD [OF assms(1-5)] assms(6)])

text \<open>
  Claim C9. In every constraint dictionary the notebook builds, \<^verbatim>\<open>'jac'\<close> is the exact
  derivative of \<^verbatim>\<open>'fun'\<close>: for all \<open>x\<close>, \<open>y\<close> the fencing constraint \<open>x * y - 100\<close> has
  Jacobian \<open>[[y, x]]\<close>; for all \<open>s1\<close>, \<open>s2\<close>, \<open>s3\<close> the portfolio constraint
  \<open>10 - s1 - s2 - s3\<close> has Jacobian \<open>[[-1, -1, -1]]\<close>; for all \<open>u\<close>, \<open>v\<close> the Lagrange
  constraint \<open>u + v - 6\<close> has Jacobian \<open>[[1, 1]]\<close>. Each entry of the returned matrix is
  the partial derivative of the constraint value in the corresponding variable.
\<close>

theorem constraint_jacobians_exact:
  "(c_fun fencing_ineq_cons [x, y] = Inr [x * y - 100] \<and>
    c_jac fencing_ineq_cons [x, y] = Inr [[y, x]] \<and>
    jac_is_derivative_at fencing_ineq_cons [x, y]) \<and>
   (c_fun portfolio_ineq_cons [s1, s2, s3] = Inr [10 - s1 - s2 - s3] \<and>
    c_jac portfolio_ineq_cons [s1, s2, s3] = Inr [[- 1, - 1, - 1]] \<and>
    jac_is_derivative_at portfolio_ineq_cons [s1, s2, s3]) \<and>
   (c_fun lagrange_eq_cons [u, v] = Inr [u + v - 6] \<and>
    c_jac lagrange_eq_cons [u, v] = Inr [[1, 1]] \<and>
    jac_is_derivative_at lagrange_eq_cons [u, v])"
proof (intro conjI)
  show "c_fun fencing_ineq_cons [x, y] = Inr [x * y - 100]"
    by (simp add: fencing_ineq_cons_def fencing_fun_pair)
  show "c_jac fencing_ineq_cons [x, y] = Inr [[y, x]]"
    by (simp add: fencing_ineq_cons_def fencing_jac_pair)
  show "jac_is_derivative_at fencing_ineq_cons [x, y]"
    by (rule fencing_jac_exact)
  show "c_fun portfolio_ineq_cons [s1, s2, s3] = Inr [10 - s1 - s2 - s3]"
    by (simp add: portfolio_ineq_cons_def portfolio_fun_triple)
  show "c_jac portfolio_ineq_cons [s1, s2, s3] = Inr [[- 1, - 1, - 1]]"
    by (simp add: portfolio_ineq_cons_def portfolio_jac_def)
  show "jac_is_derivative_at portfolio_ineq_cons [s1, s2, s3]"
    by (rule portfolio_jac_exact)
  show "c_fun lagrange_eq_cons [u, v] = Inr [u + v - 6]"
    by (simp add: lagrange_eq_cons_def lagrange_fun_pair)
  show "c_jac lagrange_eq_cons [u, v] = Inr [[1, 1]]"
    by (simp add: lagrange_eq_cons_def lagrange_jac_def)
  show "jac_is_derivative_at lagrange_eq_cons [u, v]"
    by (rule lagrange_jac_exact)
qed

theorem constraint_jacobians_exact_witness:
  "c_jac fencing_ineq_cons [5, 20] = Inr [[20, 5]] \<and>
   ((\<lambda>t. t * 20 - 100) has_real_derivative 20) (at 5) \<and>
   ((\<lambda>t. 5 * t - 100) has_real_derivative 5) (at 20) \<and>
   c_jac portfolio_ineq_cons [3, 3, 3] = Inr [[- 1, - 1, - 1]] \<and>
   ((\<lambda>t. 10 - 3 - 3 - t) has_real_derivative - 1) (at 3) \<and>
   c_jac lagrange_eq_cons [1, 1] = Inr [[1, 1]] \<and>
   ((\<lambda>t. t + 1 - 6) has_real_derivative 1) (at 1)"
proof -
  note inst = constraint_jacobians_exact [of 5 20 3 3 3 1 1]
  have fen: "jac_is_derivative_at fencing_ineq_cons [5, 20]"
    and fen_fun: "c_fun fencing_ineq_cons [5, 20] = Inr [5 * 20 - 100]"
    and fen_jac: "c_jac fencing_ineq_cons [5, 20] = Inr [[20, 5]]"
    and por: "jac_is_derivative_at portfolio_ineq_cons [3, 3, 3]"
    and por_fun: "c_fun portfolio_ineq_cons [3, 3, 3] = Inr [10 - 3 - 3 - 3]"
    and por_jac: "c_jac portfolio_ineq_cons [3, 3, 3] = Inr [[- 1, - 1, - 1]]"
    and lag: "jac_is_derivative_at lagrange_eq_cons [1, 1]"
    and lag_fun: "c_fun lagrange_eq_cons [1, 1] = Inr [1 + 1 - 6]"
    and lag_jac: "c_jac lagrange_eq_cons [1, 1] = Inr [[1, 1]]"
    using inst by blast+
  have "((\<lambda>t. [t * 20 - 100] ! 0) has_real_derivative [[20, 5]] ! 0 ! 0) (at ([5, 20] ! 0))"
    by (rule jac_entry_derivative [OF fen fen_fun fen_jac])
      (simp_all add: fencing_ineq_cons_def fencing_fun_pair)
  then have d1: "((\<lambda>t. t * 20 - 100) has_real_derivative 20) (at (5 :: real))"
    by simp
  have "((\<lambda>t. [5 * t - 100] ! 0) has_real_derivative [[20, 5]] ! 0 ! 1) (at ([5, 20] ! 1))"
    by (rule jac_entry_derivative [OF fen fen_fun fen_jac])
      (simp_all add: fencing_ineq_cons_def fencing_fun_pair)
  then have d2: "((\<lambda>t. 5 * t - 100) has_real_derivative 5) (at (20 :: real))"
    by simp
  have "((\<lambda>t. [10 - 3 - 3 - t] ! 0) has_real_derivative [[- 1, - 1, - 1]] ! 0 ! 2)
      (at ([3, 3, 3] ! 2))"
    by (rule jac_entry_derivative [OF por por_fun por_jac])
      (simp_all add: portfolio_ineq_cons_def portfolio_fun_triple)
  then have d3: "((\<lambda>t. 10 - 3 - 3 - t) has_real_derivative - 1) (at (3 :: real))"
    by simp
  have "((\<lambda>t. [t + 1 - 6] ! 0) has_real_derivative [[1, 1]] ! 0 ! 0) (at ([1, 1] ! 0))"
    by (rule jac_entry_derivative [OF lag lag_fun lag_jac])
      (simp_all add: lagrange_eq_cons_def lagrange_fun_pair)
  then have d4: "((\<lambda>t. t + 1 - 6) has_real_derivative 1) (at (1 :: real))"
    by simp
  from d1 d2 d3 d4 fen_jac por_jac lag_jac show ?thesis
    by (intro conjI)
qed

section \<open>Analytic optima of the constrained examples\<close>

text \<open>
  The closed-form solutions the notebook quotes for its two hand-solvable problems, checked
  against the notebook's own objective and constraint functions. They say where the true
  optimum lies; they say nothing about what a numerical solver returns.
\<close>

lemma fencing_cost_pair: "fencing_cost [x, y] = Inr (14 * x + 8 * y)"
  by (simp add: fencing_cost_def getitem_def)

lemma area_pair: "area [x, y] = Inr (x * y)"
  by (simp add: area_def getitem_def)

lemma lagrange_cost_pair: "lagrange_cost [x, y] = Inr (x ^ 2 + 4 * y)"
  by (simp add: lagrange_cost_def getitem_def)

lemma constraint_pair: "constraint [x, y] = Inr (x + y)"
  by (simp add: constraint_def getitem_def)

lemma fencing_optimum_area: "area [sqrt (4 / 7 * 100), sqrt (7 / 4 * 100)] = Inr 100"
proof -
  have "sqrt (4 / 7 * 100) * sqrt (7 / 4 * 100) = sqrt ((4 / 7 * 100) * (7 / 4 * 100))"
    by (simp only: real_sqrt_mult)
  also have "\<dots> = sqrt (100 ^ 2)" by simp
  also have "\<dots> = 100" by simp
  finally show ?thesis by (simp add: area_pair)
qed

lemma fencing_optimum_cost_sq:
  "(14 * sqrt (4 / 7 * 100) + 8 * sqrt (7 / 4 * 100)) ^ 2 = 44800"
proof -
  define a :: real where "a = sqrt (4 / 7 * 100)"
  define b :: real where "b = sqrt (7 / 4 * 100)"
  have a2: "a ^ 2 = 400 / 7" by (simp add: a_def)
  have b2: "b ^ 2 = 175" by (simp add: b_def)
  have ab: "a * b = 100"
    using fencing_optimum_area by (simp add: area_pair a_def b_def)
  have "(14 * a + 8 * b) ^ 2 = 196 * a ^ 2 + 64 * b ^ 2 + 224 * (a * b)"
    by (simp add: power2_eq_square algebra_simps)
  also have "\<dots> = 44800" by (simp add: a2 b2 ab)
  finally show ?thesis by (simp add: a_def b_def)
qed

lemma fencing_analytic_minimum:
  assumes "0 \<le> x" and "0 \<le> y" and "fencing_fun [x, y] = Inr [r]" and "0 \<le> r"
  shows "\<exists>c0 c. fencing_cost [sqrt (4 / 7 * 100), sqrt (7 / 4 * 100)] = Inr c0 \<and>
    fencing_cost [x, y] = Inr c \<and> c0 \<le> c"
proof -
  from assms(3,4) have xy: "100 \<le> x * y"
    by (simp add: fencing_fun_pair)
  have "0 \<le> (14 * x - 8 * y) ^ 2" by simp
  then have "448 * (x * y) \<le> (14 * x + 8 * y) ^ 2"
    by (simp add: power2_eq_square algebra_simps)
  with xy have "44800 \<le> (14 * x + 8 * y) ^ 2" by linarith
  then have "(14 * sqrt (4 / 7 * 100) + 8 * sqrt (7 / 4 * 100)) ^ 2 \<le> (14 * x + 8 * y) ^ 2"
    by (simp only: fencing_optimum_cost_sq)
  moreover have "0 \<le> 14 * x + 8 * y" using assms(1,2) by simp
  ultimately have "14 * sqrt (4 / 7 * 100) + 8 * sqrt (7 / 4 * 100) \<le> 14 * x + 8 * y"
    by (rule power2_le_imp_le)
  then show ?thesis by (simp add: fencing_cost_pair)
qed

lemma lagrange_analytic_minimum:
  assumes "lagrange_fun [x, y] = Inr [0]"
  shows "lagrange_cost [2, 4] = Inr 20 \<and>
    (\<exists>c. lagrange_cost [x, y] = Inr c \<and> 20 \<le> c \<and> (c = 20 \<longleftrightarrow> x = 2 \<and> y = 4))"
proof -
  from assms have y: "y = 6 - x"
    by (simp add: lagrange_fun_pair)
  have eq: "x ^ 2 + 4 * y = (x - 2) ^ 2 + 20"
    by (simp add: y power2_eq_square algebra_simps)
  have "0 \<le> (x - 2) ^ 2" by simp
  with eq have le: "20 \<le> x ^ 2 + 4 * y" by simp
  have "x ^ 2 + 4 * y = 20 \<longleftrightarrow> (x - 2) ^ 2 = 0"
    using eq by simp
  also have "\<dots> \<longleftrightarrow> x = 2 \<and> y = 4"
    using y by auto
  finally have iff: "x ^ 2 + 4 * y = 20 \<longleftrightarrow> x = 2 \<and> y = 4" .
  show ?thesis using le iff by (simp add: lagrange_cost_pair)
qed

end
